theory Spec2Isabelle
  imports Complex_Main
begin

section \<open>Go string functions used by the checker\<close>

text \<open>
  A Go string is a sequence of bytes, here a \<^typ>\<open>string\<close>.

  \<^verbatim>\<open>strings.TrimSpace\<close> and \<^verbatim>\<open>strings.ToLower\<close> decode their argument as UTF-8 and
  consult the Unicode tables of the Go library for white space and for letter case. The
  library is no part of this repository, so the two functions are parameters of the
  model: the two fields of a \<open>go_strings\<close>. Whatever is proved below of a \<open>go_strings\<close>
  \<open>L\<close> holds for the functions of the Go library in particular.
\<close>

record go_strings =
  TrimSpace :: "string \<Rightarrow> string"
  ToLower :: "string \<Rightarrow> string"

text \<open>
  \<^verbatim>\<open>strings.HasPrefix\<close> and \<^verbatim>\<open>strings.TrimPrefix\<close> compare bytes and cut at a byte
  offset; they are defined as the library defines them.
\<close>

definition HasPrefix :: "string \<Rightarrow> string \<Rightarrow> bool" where
  "HasPrefix s prefix \<longleftrightarrow> length prefix \<le> length s \<and> take (length prefix) s = prefix"

definition TrimPrefix :: "string \<Rightarrow> string \<Rightarrow> string" where
  "TrimPrefix s prefix = (if HasPrefix s prefix then drop (length prefix) s else s)"

definition upper_letters :: string where
  "upper_letters = ''ABCDEFGHIJKLMNOPQRSTUVWXYZ''"

definition lower_letters :: string where
  "lower_letters = ''abcdefghijklmnopqrstuvwxyz''"

definition digits :: string where
  "digits = ''0123456789''"

definition to_title_char :: "char \<Rightarrow> char" where
  "to_title_char c =
     (case map_of (zip lower_letters upper_letters) c of Some d \<Rightarrow> d | None \<Rightarrow> c)"

text \<open>
  \<^verbatim>\<open>strings.Title\<close> maps the first letter of every word to title case: a letter is
  the first of a word when the character before it is a separator, and the string starts
  as if after a space. ASCII letters, digits and the underscore are no separators, every
  other ASCII byte is. The source applies it to the words \<open>sold\<close>, \<open>available\<close> and
  \<open>taken\<close> only; the definition is the library's on strings of ASCII bytes, and leaves
  every other byte as it is.
\<close>

definition isSeparator :: "char \<Rightarrow> bool" where
  "isSeparator r \<longleftrightarrow>
     \<not> digit7 r \<and>
     r \<notin> set digits \<and> r \<notin> set lower_letters \<and> r \<notin> set upper_letters \<and> r \<noteq> CHR ''_''"

fun title_from :: "char \<Rightarrow> string \<Rightarrow> string" where
  "title_from prev [] = []"
| "title_from prev (r # rs) =
     (if isSeparator prev then to_title_char r else r) # title_from r rs"

definition Title :: "string \<Rightarrow> string" where
  "Title s = title_from (CHR '' '') s"

section \<open>One unit of work: \<^verbatim>\<open>checkUsername\<close>\<close>

text \<open>
  What the network and the HTML parser hand back to one call of \<^verbatim>\<open>checkUsername\<close>:
  \<^item> \<open>NewRequestError err\<close>: \<^verbatim>\<open>http.NewRequest\<close> returned \<open>err\<close> (nothing is sent);
  \<^item> \<open>DoError err\<close>: \<^verbatim>\<open>uc.client.Do\<close> returned \<open>err\<close> (time-out, connection failure);
  \<^item> \<open>Response finalURL doc\<close>: a response whose request URL after redirects prints as
    \<open>finalURL\<close>; \<open>doc\<close> is what \<^verbatim>\<open>goquery.NewDocumentFromReader\<close> makes of the body,
    \<open>Inl err\<close> for its error, and otherwise \<open>Inr spans\<close> with the text contents of the
    elements that the selector \<^verbatim>\<open>span.tm-section-header-status\<close> matches, in document
    order. \<^verbatim>\<open>Length()\<close> of the selection is \<open>length spans\<close> and \<^verbatim>\<open>Text()\<close> is
    \<open>concat spans\<close>.
  An error value is its message, which is all that \<^verbatim>\<open>%v\<close> prints of it.
\<close>

datatype response =
    NewRequestError string
  | DoError string
  | Response string "string + string list"

definition normalize :: "go_strings \<Rightarrow> string \<Rightarrow> string" where
  "normalize L username = TrimSpace L (TrimPrefix username ''@'')"

definition request_url :: "string \<Rightarrow> string" where
  "request_url username = ''https://fragment.com/username/'' @ username"

definition query_url :: "string \<Rightarrow> string" where
  "query_url username = ''https://fragment.com/?query='' @ username"

text \<open>
  The line that \<^verbatim>\<open>checkUsername\<close> passes to \<^verbatim>\<open>logResult\<close>, for the normalized
  \<open>username\<close>; the branches are those of the source, in its order.
\<close>

fun result_line :: "go_strings \<Rightarrow> string \<Rightarrow> response \<Rightarrow> string" where
  "result_line L username (NewRequestError err) =
     ''@'' @ username @ '' | Error: '' @ err @ ''\<newline>''"
| "result_line L username (DoError err) =
     ''@'' @ username @ '' | Error: '' @ err @ ''\<newline>''"
| "result_line L username (Response finalURL doc) =
     (if finalURL = query_url username then ''@'' @ username @ '' | Free\<newline>''
      else case doc of
        Inl err \<Rightarrow> ''@'' @ username @ '' | Error parsing HTML: '' @ err @ ''\<newline>''
      | Inr spans \<Rightarrow>
          if length spans > 0 then
            (let status = ToLower L (TrimSpace L (concat spans)) in
             if status = ''sold'' \<or> status = ''available'' \<or> status = ''taken''
             then ''@'' @ username @ '' | '' @ Title status @ ''\<newline>''
             else ''@'' @ username @ '' | Unknown status ('' @ status @ '')\<newline>'')
          else ''@'' @ username @ '' | Status not found\<newline>'')"

section \<open>The checker and its construction\<close>

text \<open>
  \<^verbatim>\<open>url.Parse\<close> belongs to the Go library: it is a parameter \<open>url_Parse\<close>, returning
  \<open>Inl err\<close> or \<open>Inr u\<close> for a parsed URL \<open>u\<close> of an arbitrary type. Durations are in
  seconds. \<open>Transport = None\<close> is the nil transport of a fresh \<^verbatim>\<open>http.Client\<close>, for
  which the library takes its default transport: no proxy of the list is configured.
\<close>

record 'url http_Transport =
  Proxy :: 'url
  Dialer_Timeout :: nat
  Dialer_KeepAlive :: nat

record 'url http_Client =
  Timeout :: nat
  Transport :: "'url http_Transport option"

text \<open>
  Where the goroutine that runs \<^verbatim>\<open>Run\<close> stands: before the call, at the head of the
  \<^verbatim>\<open>for\<close> loop, in the \<^verbatim>\<open>default\<close> branch before the send on \<^verbatim>\<open>sem\<close> and
  after it, at \<^verbatim>\<open>uc.wg.Wait()\<close>, after the return, or stopped by the panic of
  \<^verbatim>\<open>make\<close> on a negative capacity.
\<close>

datatype dispatcher =
    Idle | Loop | Sending string | Spawning string | Waiting | Returned | Panicked

text \<open>
  Where a goroutine started by \<^verbatim>\<open>Run\<close> stands: started; back from the network with
  a response; past \<^verbatim>\<open>logResult\<close>; past \<^verbatim>\<open>incrementProcessed\<close> (so
  \<^verbatim>\<open>checkUsername\<close> has returned); past the receive from \<^verbatim>\<open>sem\<close>; past the deferred
  \<^verbatim>\<open>uc.wg.Done()\<close>.
\<close>

datatype phase = Started | Fetched response | Logged | Counted | Released | Exited

text \<open>
  The fields of \<^verbatim>\<open>UsernameChecker\<close> (the wait group as its counter, \<^verbatim>\<open>stopChan\<close> as
  whether it is closed), then what a call of \<^verbatim>\<open>Run\<close> adds: its position, the rest of
  the range over \<^verbatim>\<open>uc.usernames\<close>, the number of elements in the buffer of \<^verbatim>\<open>sem\<close>,
  the goroutines it has started with their arguments, in the order of their start, and the
  URLs of the requests passed to \<^verbatim>\<open>uc.client.Do\<close> so far. The logger and the output
  file are left out: no value of the checker depends on them (\<^verbatim>\<open>logResult\<close> only logs
  the error of \<^verbatim>\<open>appendToFile\<close>). The two mutexes are not fields: each critical
  section is one atomic step.
\<close>

record 'url state =
  usernames :: "string list"
  threads :: int
  proxies :: "string list"
  outputFile :: string
  client :: "'url http_Client"
  results :: "string list"
  processed :: nat
  stopChan_closed :: bool
  wg :: nat
  pc :: dispatcher
  todo :: "string list"
  sem :: nat
  workers :: "(string \<times> phase) list"
  requests :: "string list"

definition NewUsernameChecker ::
  "(string \<Rightarrow> string + 'url) \<Rightarrow> string list \<Rightarrow> int \<Rightarrow> string list \<Rightarrow> string \<Rightarrow> 'url state" where
  "NewUsernameChecker url_Parse usernames' threads' proxies' outputFile' =
     (let client0 = \<lparr>Timeout = 10, Transport = None\<rparr>;
          client1 =
            (if length proxies' > 0 then
               (case url_Parse (proxies' ! 0) of
                  Inr proxyURL \<Rightarrow>
                    client0\<lparr>Transport :=
                      Some \<lparr>Proxy = proxyURL, Dialer_Timeout = 10, Dialer_KeepAlive = 10\<rparr>\<rparr>
                | Inl err \<Rightarrow> client0)
             else client0)
      in \<lparr>usernames = usernames', threads = threads', proxies = proxies',
          outputFile = outputFile', client = client1, results = [], processed = 0,
          stopChan_closed = False, wg = 0, pc = Idle, todo = [], sem = 0, workers = [],
          requests = []\<rparr>)"

section \<open>Result sink and progress tracker\<close>

definition logResult :: "string \<Rightarrow> 'url state \<Rightarrow> 'url state" where
  "logResult result s = s\<lparr>results := results s @ [result]\<rparr>"

definition incrementProcessed :: "'url state \<Rightarrow> 'url state" where
  "incrementProcessed s = s\<lparr>processed := processed s + 1\<rparr>"

text \<open>
  The \<^verbatim>\<open>float64\<close> that \<^verbatim>\<open>GetProgress\<close> computes as
  \<^verbatim>\<open>(float64(processed) / float64(total)) * 100\<close> from two counters that are never
  negative. By IEEE 754 the quotient of zero by zero is a NaN, that of a positive number by
  zero is \<open>+Inf\<close>, and both stay what they are when multiplied by 100. Otherwise each of
  the two conversions, the division and the multiplication yields the binary64 nearest to
  its exact result: the rounding of a rational number to a binary64 is the parameter
  \<open>rnd\<close>. (The counters are below \<open>2^63\<close> and the counter is at most the total, so no
  result leaves the range of the finite binary64 numbers.)
\<close>

datatype float64 = NaN | PosInf | Finite rat

definition progress_percent :: "(rat \<Rightarrow> rat) \<Rightarrow> nat \<Rightarrow> nat \<Rightarrow> float64" where
  "progress_percent rnd processed' total' =
     (if total' = 0 then (if processed' = 0 then NaN else PosInf)
      else Finite (rnd (rnd (rnd (of_nat processed') / rnd (of_nat total')) * 100)))"

definition GetProgress :: "(rat \<Rightarrow> rat) \<Rightarrow> 'url state \<Rightarrow> (nat \<times> nat \<times> float64) \<times> 'url state" where
  "GetProgress rnd s =
     (let total' = length (usernames s);
          processed' = processed s;
          progress = progress_percent rnd processed' total'
      in ((processed', total', progress), s))"

text \<open>\<open>poll n\<close> calls \<^verbatim>\<open>GetProgress\<close> \<open>n\<close> times in a row and collects what it returns.\<close>

fun poll :: "(rat \<Rightarrow> rat) \<Rightarrow> nat \<Rightarrow> 'url state \<Rightarrow> (nat \<times> nat \<times> float64) list \<times> 'url state" where
  "poll rnd 0 s = ([], s)"
| "poll rnd (Suc n) s =
     (let (v, s') = GetProgress rnd s; (vs, s'') = poll rnd n s' in (v # vs, s''))"

section \<open>\<^verbatim>\<open>checkUsername\<close> as one sequential call\<close>

definition client_Do :: "string \<Rightarrow> 'url state \<Rightarrow> 'url state" where
  "client_Do url s = s\<lparr>requests := requests s @ [url]\<rparr>"

text \<open>
  What the first part of \<^verbatim>\<open>checkUsername\<close> does to the network when it gets the
  response \<open>r\<close>: a request whose construction failed is never sent.
\<close>

fun send_request :: "string \<Rightarrow> response \<Rightarrow> 'url state \<Rightarrow> 'url state" where
  "send_request url (NewRequestError err) s = s"
| "send_request url r s = client_Do url s"

fun checkUsername :: "go_strings \<Rightarrow> string \<Rightarrow> response \<Rightarrow> 'url state \<Rightarrow> 'url state" where
  "checkUsername L username0 (NewRequestError err) s =
     (let username = TrimSpace L (TrimPrefix username0 ''@'') in
      incrementProcessed
        (logResult (''@'' @ username @ '' | Error: '' @ err @ ''\<newline>'') s))"
| "checkUsername L username0 (DoError err) s =
     (let username = TrimSpace L (TrimPrefix username0 ''@'');
          url = ''https://fragment.com/username/'' @ username;
          s = client_Do url s
      in incrementProcessed
           (logResult (''@'' @ username @ '' | Error: '' @ err @ ''\<newline>'') s))"
| "checkUsername L username0 (Response finalURL doc) s =
     (let username = TrimSpace L (TrimPrefix username0 ''@'');
          url = ''https://fragment.com/username/'' @ username;
          s = client_Do url s
      in if finalURL = ''https://fragment.com/?query='' @ username then
           incrementProcessed (logResult (''@'' @ username @ '' | Free\<newline>'') s)
         else
           (case doc of
              Inl err \<Rightarrow>
                incrementProcessed
                  (logResult
                     (''@'' @ username @ '' | Error parsing HTML: '' @ err @ ''\<newline>'') s)
            | Inr spans \<Rightarrow>
                if length spans > 0 then
                  (let status = ToLower L (TrimSpace L (concat spans));
                       result =
                         (if status = ''sold'' \<or> status = ''available'' \<or> status = ''taken''
                          then ''@'' @ username @ '' | '' @ Title status @ ''\<newline>''
                          else ''@'' @ username @ '' | Unknown status ('' @ status
                                 @ '')\<newline>'')
                   in incrementProcessed (logResult result s))
                else
                  incrementProcessed
                    (logResult (''@'' @ username @ '' | Status not found\<newline>'') s)))"

section \<open>\<^verbatim>\<open>Run\<close> and its goroutines, step by step\<close>

text \<open>
  An execution is a sequence of atomic steps of the goroutines, in any order the scheduler
  picks; every access to shared memory in the source is under a mutex, on a channel or on
  the wait group, so the interleavings of these steps are all there is to observe.
  \<^item> \<open>Start\<close>: \<^verbatim>\<open>Run\<close> is called and makes \<^verbatim>\<open>sem\<close>;
  \<^item> \<open>Select\<close>: the head of the loop: leave it when the range is exhausted, otherwise
    the \<^verbatim>\<open>select\<close>, which takes the \<^verbatim>\<open>stopChan\<close> case and returns when the channel
    is closed, and the \<^verbatim>\<open>default\<close> case when it is not;
  \<^item> \<open>Acquire\<close>: the send on \<^verbatim>\<open>sem\<close>, possible while its buffer is not full;
  \<^item> \<open>Spawn\<close>: \<^verbatim>\<open>uc.wg.Add(1)\<close> and the \<^verbatim>\<open>go\<close> statement;
  \<^item> \<open>Wait\<close>: \<^verbatim>\<open>uc.wg.Wait()\<close> returns, possible when the counter is zero;
  \<^item> \<open>Stop\<close>: the signal handler of \<^verbatim>\<open>main\<close> closes \<^verbatim>\<open>stopChan\<close> (it does so once);
  \<^item> \<open>Fetch i r\<close>: goroutine \<open>i\<close> gets \<open>r\<close> from \<^verbatim>\<open>http.NewRequest\<close> and
    \<^verbatim>\<open>uc.client.Do\<close>;
  \<^item> \<open>Record i\<close>: it computes its line and calls \<^verbatim>\<open>logResult\<close>;
  \<^item> \<open>Count i\<close>: it calls \<^verbatim>\<open>incrementProcessed\<close>;
  \<^item> \<open>Release i\<close>: it receives from \<^verbatim>\<open>sem\<close>;
  \<^item> \<open>Done i\<close>: its deferred \<^verbatim>\<open>uc.wg.Done()\<close>.
  A step that is blocked, or that is not the next one of its goroutine, is \<open>None\<close>.
\<close>

datatype event =
    Start | Select | Acquire | Spawn | Wait | Stop
  | Fetch nat response | Record nat | Count nat | Release nat | Done nat

definition set_phase :: "nat \<Rightarrow> phase \<Rightarrow> 'url state \<Rightarrow> 'url state" where
  "set_phase i p s = s\<lparr>workers := (workers s)[i := (fst (workers s ! i), p)]\<rparr>"

definition worker :: "'url state \<Rightarrow> nat \<Rightarrow> (string \<times> phase) option" where
  "worker s i = (if i < length (workers s) then Some (workers s ! i) else None)"

fun step :: "go_strings \<Rightarrow> event \<Rightarrow> 'url state \<Rightarrow> 'url state option" where
  "step L Start s =
     (case pc s of
        Idle \<Rightarrow>
          if threads s < 0 then Some (s\<lparr>pc := Panicked\<rparr>)
          else Some (s\<lparr>pc := Loop, todo := usernames s, sem := 0\<rparr>)
      | _ \<Rightarrow> None)"
| "step L Select s =
     (case pc s of
        Loop \<Rightarrow>
          (case todo s of
             [] \<Rightarrow> Some (s\<lparr>pc := Waiting\<rparr>)
           | username # rest \<Rightarrow>
               if stopChan_closed s then Some (s\<lparr>pc := Returned\<rparr>)
               else Some (s\<lparr>pc := Sending username, todo := rest\<rparr>))
      | _ \<Rightarrow> None)"
| "step L Acquire s =
     (case pc s of
        Sending username \<Rightarrow>
          if int (sem s) < threads s
          then Some (s\<lparr>sem := sem s + 1, pc := Spawning username\<rparr>)
          else None
      | _ \<Rightarrow> None)"
| "step L Spawn s =
     (case pc s of
        Spawning username \<Rightarrow>
          Some (s\<lparr>wg := wg s + 1, workers := workers s @ [(username, Started)], pc := Loop\<rparr>)
      | _ \<Rightarrow> None)"
| "step L Wait s =
     (case pc s of
        Waiting \<Rightarrow> if wg s = 0 then Some (s\<lparr>pc := Returned\<rparr>) else None
      | _ \<Rightarrow> None)"
| "step L Stop s =
     (if stopChan_closed s then None else Some (s\<lparr>stopChan_closed := True\<rparr>))"
| "step L (Fetch i r) s =
     (case worker s i of
        Some (username, Started) \<Rightarrow>
          Some (set_phase i (Fetched r) (send_request (request_url (normalize L username)) r s))
      | _ \<Rightarrow> None)"
| "step L (Record i) s =
     (case worker s i of
        Some (username, Fetched r) \<Rightarrow>
          Some (set_phase i Logged (logResult (result_line L (normalize L username) r) s))
      | _ \<Rightarrow> None)"
| "step L (Count i) s =
     (case worker s i of
        Some (username, Logged) \<Rightarrow> Some (set_phase i Counted (incrementProcessed s))
      | _ \<Rightarrow> None)"
| "step L (Release i) s =
     (case worker s i of
        Some (username, Counted) \<Rightarrow>
          if sem s > 0 then Some (set_phase i Released (s\<lparr>sem := sem s - 1\<rparr>)) else None
      | _ \<Rightarrow> None)"
| "step L (Done i) s =
     (case worker s i of
        Some (username, Released) \<Rightarrow>
          if wg s > 0 then Some (set_phase i Exited (s\<lparr>wg := wg s - 1\<rparr>)) else None
      | _ \<Rightarrow> None)"

fun exec :: "go_strings \<Rightarrow> event list \<Rightarrow> 'url state \<Rightarrow> 'url state option" where
  "exec L [] s = Some s"
| "exec L (e # es) s = (case step L e s of None \<Rightarrow> None | Some s' \<Rightarrow> exec L es s')"

text \<open>Counting the goroutines by where they stand.\<close>

definition cnt :: "(phase \<Rightarrow> bool) \<Rightarrow> (string \<times> phase) list \<Rightarrow> nat" where
  "cnt P ws = length (filter (\<lambda>w. P (snd w)) ws)"

text \<open>
  \<open>holds_slot\<close>: between its start and its receive from \<^verbatim>\<open>sem\<close>, which spans the whole
  call of \<^verbatim>\<open>checkUsername\<close>; \<open>alive\<close>: before its \<^verbatim>\<open>uc.wg.Done()\<close>; \<open>recorded\<close>: past
  \<^verbatim>\<open>logResult\<close>; \<open>counted\<close>: past \<^verbatim>\<open>incrementProcessed\<close>.
\<close>

fun holds_slot :: "phase \<Rightarrow> bool" where
  "holds_slot Started = True"
| "holds_slot (Fetched r) = True"
| "holds_slot Logged = True"
| "holds_slot Counted = True"
| "holds_slot Released = False"
| "holds_slot Exited = False"

fun alive :: "phase \<Rightarrow> bool" where
  "alive Exited = False"
| "alive p = True"

fun recorded :: "phase \<Rightarrow> bool" where
  "recorded Started = False"
| "recorded (Fetched r) = False"
| "recorded p = True"

fun counted :: "phase \<Rightarrow> bool" where
  "counted Counted = True"
| "counted Released = True"
| "counted Exited = True"
| "counted p = False"

text \<open>\<open>fetched\<close>: back from \<^verbatim>\<open>http.NewRequest\<close> and \<^verbatim>\<open>uc.client.Do\<close>.\<close>

fun fetched :: "phase \<Rightarrow> bool" where
  "fetched Started = False"
| "fetched p = True"

text \<open>
  The handle that the dispatcher has taken from the range and not yet handed to a
  goroutine, and the slot of \<^verbatim>\<open>sem\<close> that it has taken for it.
\<close>

definition pending :: "dispatcher \<Rightarrow> nat" where
  "pending d = (case d of Sending u \<Rightarrow> 1 | Spawning u \<Rightarrow> 1 | _ \<Rightarrow> 0)"

definition reserved :: "dispatcher \<Rightarrow> nat" where
  "reserved d = (case d of Spawning u \<Rightarrow> 1 | _ \<Rightarrow> 0)"

text \<open>
  What holds of every state of an execution: the buffer of \<^verbatim>\<open>sem\<close> holds one element
  for each goroutine before its receive and for the dispatcher after its send; it is
  never longer than the capacity; the wait group counts the goroutines before their
  \<^verbatim>\<open>Done\<close>; the results and the counter count the goroutines past \<^verbatim>\<open>logResult\<close>
  and past \<^verbatim>\<open>incrementProcessed\<close>; there are no more requests than goroutines past
  their fetch; the goroutines, the handle in the dispatcher's hands and the rest of the
  range make up the input; the range is exhausted at \<^verbatim>\<open>uc.wg.Wait()\<close>; and \<^verbatim>\<open>Run\<close>
  has returned either on the closed \<^verbatim>\<open>stopChan\<close> or from \<^verbatim>\<open>uc.wg.Wait()\<close>.
\<close>

definition invariant :: "'url state \<Rightarrow> bool" where
  "invariant s \<longleftrightarrow>
     sem s = cnt holds_slot (workers s) + reserved (pc s) \<and>
     (sem s = 0 \<or> int (sem s) \<le> threads s) \<and>
     wg s = cnt alive (workers s) \<and>
     length (results s) = cnt recorded (workers s) \<and>
     processed s = cnt counted (workers s) \<and>
     length (requests s) \<le> cnt fetched (workers s) \<and>
     (if pc s = Idle \<or> pc s = Panicked then workers s = []
      else length (workers s) + pending (pc s) + length (todo s) = length (usernames s)) \<and>
     (pc s = Waiting \<longrightarrow> todo s = []) \<and>
     (pc s = Returned \<longrightarrow> stopChan_closed s \<or> (todo s = [] \<and> wg s = 0))"

section \<open>The spec's outcomes\<close>

text \<open>
  The outcome of one handle and its classification, in the words of the specification:
  Free when the final URL is the query URL of the handle; else a parse error when the body
  does not parse; else not found when the status element is absent; else its text,
  lower-cased and trimmed, is one of the three known values or an unknown status carrying
  that text.
\<close>

datatype Outcome =
    Free | Sold | Available | Taken
  | UnknownStatus string | RequestError string | ParseError string | NotFound

definition classify_spec :: "go_strings \<Rightarrow> string \<Rightarrow> string + string list \<Rightarrow> string \<Rightarrow> Outcome" where
  "classify_spec L finalURL doc handle =
     (if finalURL = query_url handle then Free
      else case doc of
        Inl err \<Rightarrow> ParseError err
      | Inr spans \<Rightarrow>
          (case spans of
             [] \<Rightarrow> NotFound
           | _ \<Rightarrow>
               (let text = ToLower L (TrimSpace L (concat spans)) in
                if text = ''sold'' then Sold
                else if text = ''available'' then Available
                else if text = ''taken'' then Taken
                else UnknownStatus text)))"

text \<open>The result line that reports an outcome, the known values capitalized.\<close>

fun render :: "string \<Rightarrow> Outcome \<Rightarrow> string" where
  "render handle Free = ''@'' @ handle @ '' | Free\<newline>''"
| "render handle Sold = ''@'' @ handle @ '' | Sold\<newline>''"
| "render handle Available = ''@'' @ handle @ '' | Available\<newline>''"
| "render handle Taken = ''@'' @ handle @ '' | Taken\<newline>''"
| "render handle (UnknownStatus text) =
     ''@'' @ handle @ '' | Unknown status ('' @ text @ '')\<newline>''"
| "render handle (RequestError err) = ''@'' @ handle @ '' | Error: '' @ err @ ''\<newline>''"
| "render handle (ParseError err) =
     ''@'' @ handle @ '' | Error parsing HTML: '' @ err @ ''\<newline>''"
| "render handle NotFound = ''@'' @ handle @ '' | Status not found\<newline>''"

section \<open>String functions for the closed examples\<close>

text \<open>
  On a string of ASCII bytes \<^verbatim>\<open>strings.TrimSpace\<close> removes the leading and trailing
  bytes among tab, line feed, vertical tab, form feed, carriage return and space, and
  \<^verbatim>\<open>strings.ToLower\<close> maps \<open>A\<close> to \<open>Z\<close> to \<open>a\<close> to \<open>z\<close>. \<open>ascii_strings\<close> does just
  that. It stands for the parameter \<open>L\<close> in the closed examples only, whose strings are
  all ASCII; no theorem about every input is about it.
\<close>

definition ascii_isSpace :: "char \<Rightarrow> bool" where
  "ascii_isSpace c \<longleftrightarrow> c \<in> set [CHR 0x09, CHR 0x0A, CHR 0x0B, CHR 0x0C, CHR 0x0D, CHR '' '']"

definition ascii_TrimSpace :: "string \<Rightarrow> string" where
  "ascii_TrimSpace s = rev (dropWhile ascii_isSpace (rev (dropWhile ascii_isSpace s)))"

definition ascii_to_lower_char :: "char \<Rightarrow> char" where
  "ascii_to_lower_char c =
     (case map_of (zip upper_letters lower_letters) c of Some d \<Rightarrow> d | None \<Rightarrow> c)"

definition ascii_ToLower :: "string \<Rightarrow> string" where
  "ascii_ToLower s = map ascii_to_lower_char s"

definition ascii_strings :: go_strings where
  "ascii_strings = \<lparr>TrimSpace = ascii_TrimSpace, ToLower = ascii_ToLower\<rparr>"

section \<open>A URL parser for the closed examples\<close>

text \<open>
  Like \<^verbatim>\<open>url.Parse\<close>, \<open>url_Parse_ctl\<close> rejects a string with an ASCII control character
  (a byte below 0x20, or 0x7F); it takes every other string as it is. It stands for the
  parameter \<open>url_Parse\<close> in the examples only.
\<close>

definition isCTL :: "char \<Rightarrow> bool" where
  "isCTL b \<longleftrightarrow> (\<not> digit7 b \<and> \<not> digit6 b \<and> \<not> digit5 b) \<or> b = CHR 0x7F"

definition url_Parse_ctl :: "string \<Rightarrow> string + string" where
  "url_Parse_ctl rawURL =
     (if list_ex isCTL rawURL then Inl ''net/url: invalid control character in URL''
      else Inr rawURL)"

section \<open>Closed examples\<close>

text \<open>
  Schedules and checkers for the closed examples: a whole run over two handles with one
  thread, in which the first request times out; three handles with two threads, up to the
  point where both slots are taken; one handle, up to the start of its goroutine and up to
  its \<^verbatim>\<open>logResult\<close>; and a run over no handle at all. No example computes a finite
  ratio, so in them the identity stands for the rounding \<open>rnd\<close>.
\<close>

definition run_two :: "event list" where
  "run_two =
     [Start, Select, Acquire, Spawn, Select,
      Fetch 0 (DoError ''timeout''), Record 0, Count 0, Release 0,
      Acquire, Spawn, Select, Done 0,
      Fetch 1 (Response ''https://fragment.com/username/bob'' (Inr ['' Taken ''])),
      Record 1, Count 1, Release 1, Done 1, Wait]"

definition run_cap :: "event list" where
  "run_cap = [Start, Select, Acquire, Spawn, Select, Acquire, Spawn, Select]"

definition checker_cap :: "string state" where
  "checker_cap = NewUsernameChecker url_Parse_ctl [''a'', ''b'', ''c''] 2 [] ''out.txt''"

definition run_one :: "event list" where
  "run_one = [Start, Select, Acquire, Spawn]"

definition checker_one :: "string state" where
  "checker_one = NewUsernameChecker url_Parse_ctl [''@alice''] 1 [] ''out.txt''"

definition run_logged :: "event list" where
  "run_logged = run_one @ [Fetch 0 (DoError ''timeout''), Record 0]"

definition run_none :: "event list" where
  "run_none = [Start, Select, Wait]"

definition checker_none :: "string state" where
  "checker_none = NewUsernameChecker url_Parse_ctl [] 10 [] ''out.txt''"

definition checker_two :: "string state" where
  "checker_two = NewUsernameChecker url_Parse_ctl [''@alice'', ''bob''] 1 [] ''out.txt''"

section \<open>Between two dispatches\<close>

text \<open>
  The dispatcher is at the head of its loop, \<^verbatim>\<open>stopChan\<close> is open, no slot is taken and
  no goroutine is alive, and there is at least one slot.
\<close>

definition quiet :: "'url state \<Rightarrow> bool" where
  "quiet s \<longleftrightarrow> pc s = Loop \<and> \<not> stopChan_closed s \<and> sem s = 0 \<and> wg s = 0 \<and> 1 \<le> threads s"

section \<open>Counting goroutines\<close>

lemma cnt_Nil [simp]: "cnt P [] = 0"
  by (simp add: cnt_def)

lemma cnt_snoc [simp]: "cnt P (ws @ [w]) = cnt P ws + (if P (snd w) then 1 else 0)"
  by (simp add: cnt_def)

lemma cnt_le_length: "cnt P ws \<le> length ws"
  by (simp add: cnt_def)

lemma cnt_update:
  "i < length ws \<Longrightarrow>
   cnt P (ws[i := w]) + (if P (snd (ws ! i)) then 1 else 0) = cnt P ws + (if P (snd w) then 1 else 0)"
proof (induction ws arbitrary: i)
  case Nil
  then show ?case by simp
next
  case (Cons a ws)
  show ?case
  proof (cases i)
    case 0
    then show ?thesis by (simp add: cnt_def)
  next
    case (Suc j)
    with Cons.prems have "j < length ws" by simp
    from Cons.IH [OF this] Suc show ?thesis by (simp add: cnt_def)
  qed
qed

lemma worker_SomeD: "worker s i = Some (u, p) \<Longrightarrow> i < length (workers s) \<and> workers s ! i = (u, p)"
  by (simp add: worker_def split: if_splits)

lemma cnt_set_phase:
  assumes "worker s i = Some (u, p)"
  shows "cnt P (workers (set_phase i q s)) + (if P p then 1 else 0) = cnt P (workers s) + (if P q then 1 else 0)"
  using worker_SomeD [OF assms] cnt_update [of i "workers s" P "(u, q)"]
  by (simp add: set_phase_def)

lemma set_phase_fields [simp]:
  "usernames (set_phase i q s) = usernames s"
  "threads (set_phase i q s) = threads s"
  "results (set_phase i q s) = results s"
  "processed (set_phase i q s) = processed s"
  "stopChan_closed (set_phase i q s) = stopChan_closed s"
  "wg (set_phase i q s) = wg s"
  "pc (set_phase i q s) = pc s"
  "todo (set_phase i q s) = todo s"
  "sem (set_phase i q s) = sem s"
  "requests (set_phase i q s) = requests s"
  "client (set_phase i q s) = client s"
  "length (workers (set_phase i q s)) = length (workers s)"
  "workers (set_phase i q s) = [] \<longleftrightarrow> workers s = []"
  by (simp_all add: set_phase_def)

lemma worker_nonempty: "worker s i = Some w \<Longrightarrow> workers s \<noteq> []"
  by (auto simp: worker_def split: if_splits)


section \<open>The invariant of every execution\<close>

lemmas inv_defs = invariant_def pending_def reserved_def

lemma invariant_Start: "invariant s \<Longrightarrow> step L Start s = Some s' \<Longrightarrow> invariant s'"
  by (cases "pc s"; clarsimp simp: inv_defs split: if_splits)

lemma invariant_Select: "invariant s \<Longrightarrow> step L Select s = Some s' \<Longrightarrow> invariant s'"
  by (cases "pc s"; cases "todo s"; clarsimp simp: inv_defs split: if_splits)

lemma invariant_Acquire: "invariant s \<Longrightarrow> step L Acquire s = Some s' \<Longrightarrow> invariant s'"
  by (cases "pc s"; clarsimp simp: inv_defs split: if_splits)

lemma invariant_Spawn: "invariant s \<Longrightarrow> step L Spawn s = Some s' \<Longrightarrow> invariant s'"
  by (cases "pc s"; clarsimp simp: inv_defs split: if_splits)

lemma invariant_Wait: "invariant s \<Longrightarrow> step L Wait s = Some s' \<Longrightarrow> invariant s'"
  by (cases "pc s"; clarsimp simp: inv_defs split: if_splits)

lemma invariant_Stop: "invariant s \<Longrightarrow> step L Stop s = Some s' \<Longrightarrow> invariant s'"
  by (cases "pc s"; clarsimp simp: inv_defs split: if_splits)


lemmas cnt_facts =
  cnt_set_phase [where P = holds_slot] cnt_set_phase [where P = alive]
  cnt_set_phase [where P = recorded] cnt_set_phase [where P = counted]
  cnt_set_phase [where P = fetched]

lemma worker_fields [simp]:
  "worker (s\<lparr>requests := x\<rparr>) i = worker s i"
  "worker (s\<lparr>results := y\<rparr>) i = worker s i"
  "worker (s\<lparr>processed := n\<rparr>) i = worker s i"
  "worker (s\<lparr>sem := m\<rparr>) i = worker s i"
  "worker (s\<lparr>wg := k\<rparr>) i = worker s i"
  by (simp_all add: worker_def)

lemma step_FetchD:
  "step L (Fetch i r) s = Some s' \<Longrightarrow>
   \<exists>u. worker s i = Some (u, Started) \<and>
       s' = set_phase i (Fetched r) (send_request (request_url (normalize L u)) r s)"
  by (auto split: option.splits prod.splits phase.splits)

lemma step_RecordD:
  "step L (Record i) s = Some s' \<Longrightarrow>
   \<exists>u r. worker s i = Some (u, Fetched r) \<and>
       s' = set_phase i Logged (logResult (result_line L (normalize L u) r) s)"
  by (auto split: option.splits prod.splits phase.splits)

lemma step_CountD:
  "step L (Count i) s = Some s' \<Longrightarrow>
   \<exists>u. worker s i = Some (u, Logged) \<and> s' = set_phase i Counted (incrementProcessed s)"
  by (auto split: option.splits prod.splits phase.splits)

lemma step_ReleaseD:
  "step L (Release i) s = Some s' \<Longrightarrow>
   \<exists>u. worker s i = Some (u, Counted) \<and> sem s > 0 \<and> s' = set_phase i Released (s\<lparr>sem := sem s - 1\<rparr>)"
  by (auto split: option.splits prod.splits phase.splits if_splits)

lemma step_DoneD:
  "step L (Done i) s = Some s' \<Longrightarrow>
   \<exists>u. worker s i = Some (u, Released) \<and> wg s > 0 \<and> s' = set_phase i Exited (s\<lparr>wg := wg s - 1\<rparr>)"
  by (auto split: option.splits prod.splits phase.splits if_splits)

lemma invariant_Fetch:
  assumes "invariant s" and "step L (Fetch i r) s = Some s'"
  shows "invariant s'"
proof -
  from step_FetchD [OF assms(2)] obtain u where w: "worker s i = Some (u, Started)"
    and s': "s' = set_phase i (Fetched r) (send_request (request_url (normalize L u)) r s)"
    by blast
  define t where "t = send_request (request_url (normalize L u)) r s"
  have t: "workers t = workers s" "sem t = sem s" "wg t = wg s" "results t = results s"
    "processed t = processed s" "pc t = pc s" "todo t = todo s" "usernames t = usernames s"
    "threads t = threads s" "stopChan_closed t = stopChan_closed s"
    "length (requests t) \<le> length (requests s) + 1"
    unfolding t_def by (cases r; simp add: client_Do_def)+
  have wt: "worker t i = Some (u, Started)"
    using w t(1) by (simp add: worker_def split: if_splits)
  note c = cnt_facts [OF wt, of "Fetched r"] worker_nonempty [OF w]
  show ?thesis
    using assms(1) c t unfolding s' t_def [symmetric]
    by (auto simp: inv_defs)
qed


lemma invariant_Record:
  assumes "invariant s" and "step L (Record i) s = Some s'"
  shows "invariant s'"
proof -
  from step_RecordD [OF assms(2)] obtain u r where w: "worker s i = Some (u, Fetched r)"
    and s': "s' = set_phase i Logged (logResult (result_line L (normalize L u) r) s)"
    by blast
  have wt: "worker (logResult (result_line L (normalize L u) r) s) i = Some (u, Fetched r)"
    using w by (simp add: logResult_def)
  note c = cnt_facts [OF wt, of Logged] worker_nonempty [OF w]
  show ?thesis
    using assms(1) c unfolding s'
    by (auto simp: inv_defs logResult_def)
qed

lemma invariant_Count:
  assumes "invariant s" and "step L (Count i) s = Some s'"
  shows "invariant s'"
proof -
  from step_CountD [OF assms(2)] obtain u where w: "worker s i = Some (u, Logged)"
    and s': "s' = set_phase i Counted (incrementProcessed s)"
    by blast
  have wt: "worker (incrementProcessed s) i = Some (u, Logged)"
    using w by (simp add: incrementProcessed_def)
  note c = cnt_facts [OF wt, of Counted] worker_nonempty [OF w]
  show ?thesis
    using assms(1) c unfolding s'
    by (auto simp: inv_defs incrementProcessed_def)
qed

lemma invariant_Release:
  assumes "invariant s" and "step L (Release i) s = Some s'"
  shows "invariant s'"
proof -
  from step_ReleaseD [OF assms(2)] obtain u where w: "worker s i = Some (u, Counted)"
    and pos: "sem s > 0" and s': "s' = set_phase i Released (s\<lparr>sem := sem s - 1\<rparr>)"
    by blast
  have wt: "worker (s\<lparr>sem := sem s - 1\<rparr>) i = Some (u, Counted)"
    using w by simp
  note c = cnt_facts [OF wt, of Released] worker_nonempty [OF w]
  show ?thesis
    using assms(1) c pos unfolding s'
    by (auto simp: inv_defs)
qed

lemma invariant_Done:
  assumes "invariant s" and "step L (Done i) s = Some s'"
  shows "invariant s'"
proof -
  from step_DoneD [OF assms(2)] obtain u where w: "worker s i = Some (u, Released)"
    and pos: "wg s > 0" and s': "s' = set_phase i Exited (s\<lparr>wg := wg s - 1\<rparr>)"
    by blast
  have wt: "worker (s\<lparr>wg := wg s - 1\<rparr>) i = Some (u, Released)"
    using w by simp
  note c = cnt_facts [OF wt, of Exited] worker_nonempty [OF w]
  show ?thesis
    using assms(1) c pos unfolding s'
    by (auto simp: inv_defs)
qed

lemma invariant_step: "invariant s \<Longrightarrow> step L e s = Some s' \<Longrightarrow> invariant s'"
  by (cases e)
    (blast intro: invariant_Start invariant_Select invariant_Acquire invariant_Spawn
       invariant_Wait invariant_Stop invariant_Fetch invariant_Record invariant_Count
       invariant_Release invariant_Done)+

lemma invariant_exec: "invariant s \<Longrightarrow> exec L es s = Some s' \<Longrightarrow> invariant s'"
proof (induction es arbitrary: s)
  case Nil
  then show ?case by simp
next
  case (Cons e es)
  from Cons.prems(2) obtain s1 where 1: "step L e s = Some s1" and 2: "exec L es s1 = Some s'"
    by (auto split: option.splits)
  from Cons.IH [OF invariant_step [OF Cons.prems(1) 1] 2] show ?case .
qed

lemma invariant_New: "invariant (NewUsernameChecker url_Parse us n ps out)"
  by (simp add: NewUsernameChecker_def Let_def inv_defs)


section \<open>Frame conditions and counting facts\<close>

lemma step_frame_dispatcher:
  assumes "step L e s = Some s'" and "e = Start \<or> e = Select \<or> e = Acquire \<or> e = Spawn \<or> e = Wait \<or> e = Stop"
  shows "usernames s' = usernames s \<and> threads s' = threads s \<and> client s' = client s \<and>
         processed s' = processed s \<and> results s' = results s \<and> requests s' = requests s \<and>
         (e \<noteq> Stop \<longrightarrow> stopChan_closed s' = stopChan_closed s)"
  using assms
  by (cases "pc s"; cases "todo s"; elim disjE; clarsimp split: if_splits)

lemma step_frame:
  assumes "step L e s = Some s'"
  shows "usernames s' = usernames s \<and> threads s' = threads s \<and> client s' = client s \<and>
         (e \<noteq> Stop \<longrightarrow> stopChan_closed s' = stopChan_closed s) \<and>
         (processed s' = processed s \<or> processed s' = processed s + 1)"
proof (cases e)
  case (Fetch i r)
  from step_FetchD [OF assms [unfolded Fetch]] Fetch show ?thesis
    by (cases r) (auto simp: client_Do_def)
next
  case (Record i)
  from step_RecordD [OF assms [unfolded Record]] Record show ?thesis
    by (auto simp: logResult_def)
next
  case (Count i)
  from step_CountD [OF assms [unfolded Count]] Count show ?thesis
    by (auto simp: incrementProcessed_def)
next
  case (Release i)
  from step_ReleaseD [OF assms [unfolded Release]] Release show ?thesis
    by auto
next
  case (Done i)
  from step_DoneD [OF assms [unfolded Done]] Done show ?thesis
    by auto
qed (use assms step_frame_dispatcher [OF assms] in simp_all)

lemma exec_frame:
  "exec L es s = Some s' \<Longrightarrow>
   usernames s' = usernames s \<and> threads s' = threads s \<and> client s' = client s \<and>
   (Stop \<notin> set es \<longrightarrow> stopChan_closed s' = stopChan_closed s)"
proof (induction es arbitrary: s)
  case Nil
  then show ?case by simp
next
  case (Cons e es)
  from Cons.prems obtain s1 where 1: "step L e s = Some s1" and 2: "exec L es s1 = Some s'"
    by (auto split: option.splits)
  from Cons.IH [OF 2] step_frame [OF 1] show ?case by auto
qed

lemma New_fields [simp]:
  "usernames (NewUsernameChecker url_Parse us n ps out) = us"
  "threads (NewUsernameChecker url_Parse us n ps out) = n"
  "proxies (NewUsernameChecker url_Parse us n ps out) = ps"
  "stopChan_closed (NewUsernameChecker url_Parse us n ps out) = False"
  "processed (NewUsernameChecker url_Parse us n ps out) = 0"
  "results (NewUsernameChecker url_Parse us n ps out) = []"
  "pc (NewUsernameChecker url_Parse us n ps out) = Idle"
  by (simp_all add: NewUsernameChecker_def Let_def)

lemma reachable_invariant:
  "exec L es (NewUsernameChecker url_Parse us n ps out) = Some s \<Longrightarrow>
   invariant s \<and> usernames s = us \<and> threads s = n"
  using invariant_exec [OF invariant_New] exec_frame by fastforce

lemma cnt_zero_iff: "cnt P ws = 0 \<longleftrightarrow> (\<forall>w \<in> set ws. \<not> P (snd w))"
  by (simp add: cnt_def filter_empty_conv)

lemma cnt_all: "(\<And>w. w \<in> set ws \<Longrightarrow> P (snd w)) \<Longrightarrow> cnt P ws = length ws"
  by (simp add: cnt_def)

lemma not_alive_counted: "\<not> alive p \<Longrightarrow> counted p"
  by (cases p) simp_all

lemma no_alive_all_counted: "cnt alive ws = 0 \<Longrightarrow> cnt counted ws = length ws"
  by (rule cnt_all) (simp add: cnt_zero_iff not_alive_counted)

lemma cnt_recorded_split: "cnt recorded ws = cnt counted ws + cnt (\<lambda>p. p = Logged) ws"
proof (induction ws)
  case Nil
  then show ?case by simp
next
  case (Cons w ws)
  then show ?case by (cases "snd w") (simp_all add: cnt_def)
qed

lemma processed_le_total: "invariant s \<Longrightarrow> processed s \<le> length (usernames s)"
  using cnt_le_length [of counted "workers s"]
  by (auto simp: invariant_def split: if_splits)

section \<open>Classification\<close>

lemma Title_known:
  "Title ''sold'' = ''Sold''" "Title ''available'' = ''Available''" "Title ''taken'' = ''Taken''"
  by (simp_all add: Title_def isSeparator_def to_title_char_def lower_letters_def
        upper_letters_def digits_def)

lemma result_line_classify:
  "result_line L handle (Response finalURL doc) = render handle (classify_spec L finalURL doc handle)"
  by (cases doc; cases "projr doc")
     (auto simp: classify_spec_def Let_def Title_known)

lemma checkUsername_factors:
  "checkUsername L username r s =
     incrementProcessed
       (logResult (result_line L (normalize L username) r)
          (send_request (request_url (normalize L username)) r s))"
  by (cases r; cases "case r of Response f d \<Rightarrow> d | _ \<Rightarrow> Inl []")
     (auto simp: Let_def normalize_def request_url_def query_url_def)

text \<open>
  Claim C4. For every handle and response, and whatever \<^verbatim>\<open>strings.TrimSpace\<close> and
  \<^verbatim>\<open>strings.ToLower\<close> compute, the line that \<^verbatim>\<open>checkUsername\<close> records is the report
  of the outcome that the specification's classification computes for the normalized
  handle: Free when the final URL equals the query URL of the handle, whatever the body
  is; otherwise a parse error when the body does not parse; otherwise not found when no
  status element is there; otherwise the text of the element, lower-cased and trimmed,
  decides: \<open>sold\<close>, \<open>available\<close> and \<open>taken\<close> are reported capitalized and any other
  text as an unknown status that carries the lower-cased, trimmed text.
\<close>

theorem classification_refines_spec:
  "results (checkUsername L username (Response finalURL doc) s) =
     results s @ [render (normalize L username)
                    (classify_spec L finalURL doc (normalize L username))]"
  by (simp only: checkUsername_factors result_line_classify)
     (simp add: incrementProcessed_def logResult_def client_Do_def)

section \<open>Cancellation\<close>

text \<open>
  Claim C1. With the handles \<open>a\<close> and \<open>b\<close> and one thread, \<^verbatim>\<open>stopChan\<close> is closed after
  the goroutine for \<open>a\<close> has been started and before it has done anything. The next
  \<^verbatim>\<open>select\<close> of the loop takes the \<^verbatim>\<open>stopChan\<close> case and \<^verbatim>\<open>Run\<close> returns at once,
  without \<^verbatim>\<open>uc.wg.Wait()\<close>: \<open>b\<close> is never dispatched, but \<^verbatim>\<open>Run\<close> has returned while
  the unit of work for \<open>a\<close> is still at its start, with no result recorded and nothing
  counted.
\<close>

theorem Run_returns_with_unit_in_flight:
  "map_option (\<lambda>s. (pc s, workers s, results s, processed s))
     (exec ascii_strings [Start, Select, Acquire, Spawn, Stop, Select]
        (NewUsernameChecker url_Parse_ctl [''a'', ''b''] 1 [] ''out.txt''))
   = Some (Returned, [(''a'', Started)], [], 0)"
  by (simp add: NewUsernameChecker_def)



lemma step_after_stop:
  assumes "step L e s = Some s'" and "stopChan_closed s"
  shows "stopChan_closed s' \<and>
         length (workers s') + pending (pc s') = length (workers s) + pending (pc s)"
proof (cases e)
  case (Fetch i r)
  from step_FetchD [OF assms(1) [unfolded Fetch]] assms(2) show ?thesis
    by (cases r) (auto simp: client_Do_def)
next
  case (Record i)
  from step_RecordD [OF assms(1) [unfolded Record]] assms(2) show ?thesis
    by (auto simp: logResult_def)
next
  case (Count i)
  from step_CountD [OF assms(1) [unfolded Count]] assms(2) show ?thesis
    by (auto simp: incrementProcessed_def)
next
  case (Release i)
  from step_ReleaseD [OF assms(1) [unfolded Release]] assms(2) show ?thesis
    by auto
next
  case (Done i)
  from step_DoneD [OF assms(1) [unfolded Done]] assms(2) show ?thesis
    by auto
qed (use assms in \<open>cases "pc s"; cases "todo s"; clarsimp simp: pending_def split: if_splits\<close>)+

text \<open>
  The half of the cancellation property that the code keeps: once \<^verbatim>\<open>stopChan\<close> is
  closed, the only goroutine that can still be started is the one for the handle that the
  dispatcher has already taken from the range.
\<close>

lemma no_dispatch_after_stop:
  "exec L es s = Some s' \<Longrightarrow> stopChan_closed s \<Longrightarrow>
   length (workers s') \<le> length (workers s) + pending (pc s)"
proof (induction es arbitrary: s)
  case Nil
  then show ?case by simp
next
  case (Cons e es)
  from Cons.prems(1) obtain s1 where 1: "step L e s = Some s1" and 2: "exec L es s1 = Some s'"
    by (auto split: option.splits)
  from step_after_stop [OF 1 Cons.prems(2)] Cons.IH [OF 2] show ?case by simp
qed

section \<open>Evaluating the closed examples\<close>

lemmas string_defs =
  normalize_def ascii_strings_def ascii_TrimSpace_def TrimPrefix_def HasPrefix_def
  ascii_isSpace_def ascii_ToLower_def ascii_to_lower_char_def to_title_char_def upper_letters_def lower_letters_def digits_def
  Title_def isSeparator_def request_url_def query_url_def

lemmas run_defs =
  NewUsernameChecker_def worker_def set_phase_def logResult_def incrementProcessed_def
  client_Do_def

lemma run_two_result:
  "\<exists>s. exec ascii_strings run_two checker_two = Some s \<and> pc s = Returned \<and> processed s = 2 \<and>
       results s = [''@alice | Error: timeout\<newline>'', ''@bob | Taken\<newline>'']"
  by (simp add: run_two_def checker_two_def run_defs string_defs)

lemma run_one_result:
  "\<exists>s. exec ascii_strings run_one checker_one = Some s \<and> worker s 0 = Some (''@alice'', Started) \<and>
       processed s = 0 \<and> results s = [] \<and> requests s = [] \<and> sem s = 1 \<and> wg s = 1 \<and>
       pc s = Loop \<and> todo s = [] \<and> workers s = [(''@alice'', Started)] \<and>
       usernames s = [''@alice'']"
  by (simp add: run_one_def checker_one_def run_defs)


text \<open>The classification table of the specification, for the handle \<open>@alice\<close>.\<close>

theorem classification_refines_spec_witness:
  "results (checkUsername ascii_strings ''@alice''
      (Response ''https://fragment.com/?query=alice'' (Inl ''unexpected EOF'')) checker_one)
     = [''@alice | Free\<newline>''] \<and>
   results (checkUsername ascii_strings ''@alice''
      (Response ''https://fragment.com/username/alice'' (Inr ['' Taken\<newline>''])) checker_one)
     = [''@alice | Taken\<newline>''] \<and>
   results (checkUsername ascii_strings ''@alice''
      (Response ''https://fragment.com/username/alice'' (Inr [''weird''])) checker_one)
     = [''@alice | Unknown status (weird)\<newline>''] \<and>
   results (checkUsername ascii_strings ''@alice''
      (Response ''https://fragment.com/username/alice'' (Inr [])) checker_one)
     = [''@alice | Status not found\<newline>''] \<and>
   results (checkUsername ascii_strings ''@alice''
      (Response ''https://fragment.com/username/alice'' (Inl ''unexpected EOF'')) checker_one)
     = [''@alice | Error parsing HTML: unexpected EOF\<newline>'']"
proof -
  note c = classification_refines_spec [where L = ascii_strings and username = "''@alice''"
      and s = checker_one]
  have n: "normalize ascii_strings ''@alice'' = ''alice''"
    by (simp add: string_defs)
  have e: "results checker_one = []"
    by (simp add: checker_one_def)
  have 1: "classify_spec ascii_strings ''https://fragment.com/?query=alice''
             (Inl ''unexpected EOF'') ''alice'' = Free"
    by (simp add: classify_spec_def query_url_def)
  have 2: "classify_spec ascii_strings ''https://fragment.com/username/alice''
             (Inr ['' Taken\<newline>'']) ''alice'' = Taken"
    by (simp add: classify_spec_def string_defs)
  have 3: "classify_spec ascii_strings ''https://fragment.com/username/alice''
             (Inr [''weird'']) ''alice'' = UnknownStatus ''weird''"
    by (simp add: classify_spec_def string_defs)
  have 4: "classify_spec ascii_strings ''https://fragment.com/username/alice''
             (Inr []) ''alice'' = NotFound"
    by (simp add: classify_spec_def query_url_def)
  have 5: "classify_spec ascii_strings ''https://fragment.com/username/alice''
             (Inl ''unexpected EOF'') ''alice'' = ParseError ''unexpected EOF''"
    by (simp add: classify_spec_def query_url_def)
  show ?thesis
    unfolding c n e 1 2 3 4 5 by simp
qed

section \<open>The goroutine of one handle\<close>

lemma cnt_pos: "worker s i = Some (u, p) \<Longrightarrow> P p \<Longrightarrow> 0 < cnt P (workers s)"
  using cnt_zero_iff [of P "workers s"] worker_SomeD [of s i u p]
  by (metis gr0I nth_mem snd_conv)

lemma worker_set_phase [simp]:
  "worker s i = Some (u, p) \<Longrightarrow> worker (set_phase i q s) i = Some (u, q)"
  by (auto simp: worker_def set_phase_def split: if_splits)

lemma set_phase_twice [simp]: "set_phase i q (set_phase i p s) = set_phase i q s"
  by (cases "i < length (workers s)") (simp_all add: set_phase_def list_update_beyond)

lemma set_phase_commute:
  "set_phase i q (logResult l s) = logResult l (set_phase i q s)"
  "set_phase i q (incrementProcessed s) = incrementProcessed (set_phase i q s)"
  "set_phase i q (send_request url r s) = send_request url r (set_phase i q s)"
  by (cases r; simp add: set_phase_def logResult_def incrementProcessed_def client_Do_def)+

lemma worker_through [simp]:
  "worker (logResult l s) i = worker s i"
  "worker (incrementProcessed s) i = worker s i"
  "worker (send_request url r s) i = worker s i"
  by (cases r; simp add: worker_def logResult_def incrementProcessed_def client_Do_def)+

lemma worker_runs_checkUsername:
  assumes "worker s i = Some (u, Started)"
  shows "exec L [Fetch i r, Record i, Count i] s = Some (set_phase i Counted (checkUsername L u r s))"
proof -
  let ?s0 = "send_request (request_url (normalize L u)) r s"
  let ?s1 = "set_phase i (Fetched r) ?s0"
  let ?s2 = "set_phase i Logged (logResult (result_line L (normalize L u) r) ?s1)"
  let ?s3 = "set_phase i Counted (incrementProcessed ?s2)"
  have 1: "step L (Fetch i r) s = Some ?s1"
    using assms by simp
  have w1: "worker ?s1 i = Some (u, Fetched r)"
    using assms by simp
  have 2: "step L (Record i) ?s1 = Some ?s2"
    using w1 by simp
  have w2: "worker ?s2 i = Some (u, Logged)"
    using w1 by simp
  have 3: "step L (Count i) ?s2 = Some ?s3"
    using w2 by simp
  have "?s3 = set_phase i Counted (checkUsername L u r s)"
    by (simp add: checkUsername_factors set_phase_commute)
  with 1 2 3 show ?thesis by simp
qed


lemma checkUsername_record:
  "checkUsername L u r s =
     s\<lparr>requests := requests s @ (case r of NewRequestError err \<Rightarrow> [] | _ \<Rightarrow> [request_url (normalize L u)]),
       results := results s @ [result_line L (normalize L u) r],
       processed := processed s + 1\<rparr>"
  by (cases r) (simp_all add: checkUsername_factors logResult_def incrementProcessed_def client_Do_def)

lemma exec_append:
  "exec L (xs @ ys) s = (case exec L xs s of None \<Rightarrow> None | Some s' \<Rightarrow> exec L ys s')"
  by (induction xs arbitrary: s) (simp_all split: option.splits)

lemma worker_completes:
  assumes w: "worker s i = Some (u, Started)" and pos: "0 < sem s" "0 < wg s"
  shows "\<exists>s'. exec L [Fetch i r, Record i, Count i, Release i, Done i] s = Some s' \<and>
           worker s' i = Some (u, Exited) \<and>
           requests s' = requests (checkUsername L u r s) \<and>
           results s' = results s @ [result_line L (normalize L u) r] \<and>
           processed s' = processed s + 1 \<and>
           pc s' = pc s \<and> todo s' = todo s \<and> stopChan_closed s' = stopChan_closed s \<and>
           threads s' = threads s \<and> sem s' + 1 = sem s \<and> wg s' + 1 = wg s"
proof -
  let ?c = "checkUsername L u r s"
  let ?s3 = "set_phase i Counted ?c"
  let ?s4 = "set_phase i Released (?s3\<lparr>sem := sem ?s3 - 1\<rparr>)"
  let ?s5 = "set_phase i Exited (?s4\<lparr>wg := wg ?s4 - 1\<rparr>)"
  have wc: "worker ?c i = Some (u, Started)"
    using w by (simp add: checkUsername_record)
  have 3: "exec L [Fetch i r, Record i, Count i] s = Some ?s3"
    by (rule worker_runs_checkUsername [OF w])
  have w3: "worker ?s3 i = Some (u, Counted)"
    using wc by simp
  have 4: "step L (Release i) ?s3 = Some ?s4"
    using w3 pos by (simp add: checkUsername_record)
  have w4: "worker ?s4 i = Some (u, Released)"
    using w3 by simp
  have 5: "step L (Done i) ?s4 = Some ?s5"
    using w4 pos by (simp add: checkUsername_record)
  have w5: "worker ?s5 i = Some (u, Exited)"
    using w4 by simp
  have "exec L ([Fetch i r, Record i, Count i] @ [Release i, Done i]) s = Some ?s5"
    unfolding exec_append 3 using 4 5 by simp
  then have run: "exec L [Fetch i r, Record i, Count i, Release i, Done i] s = Some ?s5"
    by simp
  have "requests ?s5 = requests ?c"
    "results ?s5 = results s @ [result_line L (normalize L u) r]"
    "processed ?s5 = processed s + 1" "pc ?s5 = pc s" "todo ?s5 = todo s"
    "stopChan_closed ?s5 = stopChan_closed s" "threads ?s5 = threads s"
    "sem ?s5 + 1 = sem s" "wg ?s5 + 1 = wg s"
    using pos by (simp_all add: checkUsername_record)
  with run w5 show ?thesis by blast
qed

section \<open>A run that completes\<close>

text \<open>
  With at least one slot, \<^verbatim>\<open>Run\<close> can return on every input without \<^verbatim>\<open>stopChan\<close> ever
  being closed: one handle after the other is dispatched and its goroutine runs to its
  end. So the executions that the next theorem speaks of exist for every input.
\<close>

lemma unit_completes:
  assumes q: "quiet s" and t: "todo s = u # rest"
  shows "\<exists>es s'. Stop \<notin> set es \<and> exec L es s = Some s' \<and> quiet s' \<and> todo s' = rest"
proof -
  let ?s1 = "s\<lparr>pc := Sending u, todo := rest\<rparr>"
  let ?s2 = "?s1\<lparr>sem := sem ?s1 + 1, pc := Spawning u\<rparr>"
  let ?s3 = "?s2\<lparr>wg := wg ?s2 + 1, workers := workers ?s2 @ [(u, Started)], pc := Loop\<rparr>"
  let ?i = "length (workers s)"
  let ?r = "DoError []"
  from q t have d: "exec L [Select, Acquire, Spawn] s = Some ?s3"
    by (simp add: quiet_def)
  have w: "worker ?s3 ?i = Some (u, Started)"
    by (simp add: worker_def)
  from q have pos: "0 < sem ?s3" "0 < wg ?s3"
    by (simp_all add: quiet_def)
  from worker_completes [OF w pos, where r = ?r] obtain s'
    where e: "exec L [Fetch ?i ?r, Record ?i, Count ?i, Release ?i, Done ?i] ?s3 = Some s'"
      and f: "pc s' = pc ?s3" "todo s' = todo ?s3" "stopChan_closed s' = stopChan_closed ?s3"
        "threads s' = threads ?s3" "sem s' + 1 = sem ?s3" "wg s' + 1 = wg ?s3"
    by blast
  let ?es = "[Select, Acquire, Spawn] @ [Fetch ?i ?r, Record ?i, Count ?i, Release ?i, Done ?i]"
  have "exec L ?es s = Some s'"
    unfolding exec_append d using e by simp
  moreover have "Stop \<notin> set ?es"
    by simp
  moreover from q f have "quiet s'" "todo s' = rest"
    by (simp_all add: quiet_def)
  ultimately show ?thesis by blast
qed

lemma quiet_completes:
  "quiet s \<Longrightarrow> \<exists>es s'. Stop \<notin> set es \<and> exec L es s = Some s' \<and> pc s' = Returned"
proof (induction "todo s" arbitrary: s)
  case Nil
  then have "exec L [Select, Wait] s = Some (s\<lparr>pc := Returned\<rparr>)"
    by (simp add: quiet_def)
  moreover have "Stop \<notin> set [Select, Wait]"
    by simp
  moreover have "pc (s\<lparr>pc := Returned\<rparr>) = Returned"
    by simp
  ultimately show ?case by blast
next
  case (Cons u rest)
  from unit_completes [OF Cons.prems Cons.hyps(2) [symmetric]] obtain es1 s1
    where 1: "Stop \<notin> set es1" "exec L es1 s = Some s1" "quiet s1" "todo s1 = rest"
    by blast
  from Cons.hyps(1) [OF 1(4) [symmetric] 1(3)] obtain es2 s2
    where 2: "Stop \<notin> set es2" "exec L es2 s1 = Some s2" "pc s2 = Returned"
    by blast
  from 1 2 have "exec L (es1 @ es2) s = Some s2" "Stop \<notin> set (es1 @ es2)"
    by (simp_all add: exec_append)
  with 2(3) show ?case by blast
qed

lemma Run_can_complete:
  assumes "1 \<le> n"
  shows "\<exists>es s. Stop \<notin> set es \<and>
           exec L es (NewUsernameChecker url_Parse us n ps out) = Some s \<and> pc s = Returned"
proof -
  let ?c = "NewUsernameChecker url_Parse us n ps out"
  let ?s = "?c\<lparr>pc := Loop, todo := usernames ?c, sem := 0\<rparr>"
  from assms have 1: "exec L [Start] ?c = Some ?s"
    by (simp add: NewUsernameChecker_def Let_def)
  from assms have "quiet ?s"
    by (simp add: quiet_def NewUsernameChecker_def Let_def)
  from quiet_completes [OF this] obtain es s
    where 2: "Stop \<notin> set es" "exec L es ?s = Some s" "pc s = Returned"
    by blast
  have "exec L ([Start] @ es) ?c = Some s"
    unfolding exec_append 1 using 2(2) by simp
  moreover from 2(1) have "Stop \<notin> set ([Start] @ es)"
    by simp
  ultimately show ?thesis
    using 2(3) by blast
qed


section \<open>Completion without cancellation\<close>

text \<open>
  Claim C2. In every execution in which \<^verbatim>\<open>stopChan\<close> is never closed, once \<^verbatim>\<open>Run\<close> has
  returned the processed counter equals the number of input handles, and so does the
  number of recorded lines. This holds for every input list and every thread count, so in
  particular for the non-empty lists and the limits from 1 on (with a limit below 1 and a
  non-empty list \<^verbatim>\<open>Run\<close> never returns).
\<close>

theorem processed_equals_total_after_Run:
  assumes "exec L es (NewUsernameChecker url_Parse us n ps out) = Some s"
    and "Stop \<notin> set es" and "pc s = Returned"
  shows "processed s = length us \<and> length (results s) = length us"
proof -
  from reachable_invariant [OF assms(1)] have inv: "invariant s" and us: "usernames s = us"
    by simp_all
  from exec_frame [OF assms(1)] assms(2) have nostop: "\<not> stopChan_closed s"
    by simp
  from inv assms(3) nostop have fin: "todo s = []" "cnt alive (workers s) = 0"
    by (simp_all add: invariant_def)
  from inv assms(3) fin(1) us have len: "length (workers s) = length us"
    by (simp add: inv_defs)
  from inv have "processed s = cnt counted (workers s)"
    and "length (results s) = cnt counted (workers s) + cnt (\<lambda>p. p = Logged) (workers s)"
    by (simp_all add: invariant_def cnt_recorded_split)
  moreover have "cnt (\<lambda>p. p = Logged) (workers s) = 0"
    using fin(2) by (auto simp: cnt_zero_iff)
  ultimately show ?thesis
    using no_alive_all_counted [OF fin(2)] len by simp
qed

theorem processed_equals_total_after_Run_witness:
  "\<exists>s. exec ascii_strings run_two checker_two = Some s \<and> Stop \<notin> set run_two \<and> pc s = Returned \<and>
       processed s = length [''@alice'', ''bob''] \<and>
       length (results s) = length [''@alice'', ''bob'']"
proof -
  from run_two_result obtain s where e: "exec ascii_strings run_two checker_two = Some s"
    and r: "pc s = Returned"
    by blast
  have n: "Stop \<notin> set run_two"
    by (simp add: run_two_def)
  from processed_equals_total_after_Run [OF e [unfolded checker_two_def] n r] e n r
  show ?thesis by blast
qed


section \<open>The concurrency cap\<close>

text \<open>
  Claim C3. For every concurrency limit from 1 on, in every state of every execution the
  number of goroutines between their start and their receive from \<^verbatim>\<open>sem\<close>, which is
  where \<^verbatim>\<open>checkUsername\<close> and its fetch run, is at most the limit, and the limit is
  the one the checker was built with.
\<close>

theorem fetches_bounded_by_threads:
  assumes "exec L es (NewUsernameChecker url_Parse us n ps out) = Some s" and "1 \<le> n"
  shows "int (cnt holds_slot (workers s)) \<le> n \<and> threads s = n"
  using reachable_invariant [OF assms(1)] assms(2)
  by (auto simp: invariant_def)

theorem fetches_bounded_by_threads_witness:
  "\<exists>s. exec ascii_strings run_cap checker_cap = Some s \<and> (1::int) \<le> 2 \<and>
       cnt holds_slot (workers s) = 2 \<and> int (cnt holds_slot (workers s)) \<le> 2 \<and>
       threads s = 2 \<and> pc s = Sending ''c'' \<and> step ascii_strings Acquire s = None"
proof -
  have "\<exists>s. exec ascii_strings run_cap checker_cap = Some s \<and> cnt holds_slot (workers s) = 2 \<and>
          pc s = Sending ''c'' \<and> sem s = 2 \<and> threads s = 2"
    by (simp add: run_cap_def checker_cap_def run_defs cnt_def)
  then obtain s where e: "exec ascii_strings run_cap checker_cap = Some s"
    and c: "cnt holds_slot (workers s) = 2" "pc s = Sending ''c''" "sem s = 2" "threads s = 2"
    by blast
  have b: "step ascii_strings Acquire s = None"
    using c by simp
  from fetches_bounded_by_threads [OF e [unfolded checker_cap_def]] e c b
  show ?thesis by auto
qed

section \<open>Results and counter\<close>

text \<open>
  Claim C5. Whatever response a unit of work gets (a failed request, a parse error, a
  missing status element, an unknown or a known status), a call of \<^verbatim>\<open>checkUsername\<close>
  appends exactly one line to the results and adds exactly one to the processed counter.
  In every state of every execution the number of result lines is the number of dispatched
  goroutines that are past \<^verbatim>\<open>logResult\<close>, the processed counter is the number of those
  past \<^verbatim>\<open>incrementProcessed\<close>, and the two differ by the goroutines that stand between
  the two calls.
\<close>

theorem one_line_and_one_increment_per_unit:
  assumes "exec L es (NewUsernameChecker url_Parse us n ps out) = Some s"
  shows "length (results s) = cnt recorded (workers s) \<and>
         processed s = cnt counted (workers s) \<and>
         length (results s) = processed s + cnt (\<lambda>p. p = Logged) (workers s) \<and>
         results (checkUsername L u r t) = results t @ [result_line L (normalize L u) r] \<and>
         processed (checkUsername L u r t) = processed t + 1"
proof -
  from reachable_invariant [OF assms] have inv: "invariant s"
    by simp
  then have "length (results s) = cnt recorded (workers s)"
    and "processed s = cnt counted (workers s)"
    by (simp_all add: invariant_def)
  then show ?thesis
    by (simp add: cnt_recorded_split checkUsername_record)
qed

theorem one_line_and_one_increment_per_unit_witness:
  "\<exists>s. exec ascii_strings run_two checker_two = Some s \<and>
       length (results s) = 2 \<and> cnt recorded (workers s) = 2 \<and>
       processed s = 2 \<and> cnt counted (workers s) = 2 \<and>
       cnt (\<lambda>p. p = Logged) (workers s) = 0 \<and>
       results (checkUsername ascii_strings ''@alice'' (DoError ''timeout'') checker_two)
         = [''@alice | Error: timeout\<newline>''] \<and>
       processed (checkUsername ascii_strings ''@alice'' (DoError ''timeout'') checker_two) = 1"
proof -
  from run_two_result obtain s where e: "exec ascii_strings run_two checker_two = Some s"
    and r: "processed s = 2" "length (results s) = 2"
    by auto
  have l: "result_line ascii_strings (normalize ascii_strings ''@alice'') (DoError ''timeout'') = ''@alice | Error: timeout\<newline>''"
    by (simp add: string_defs)
  have c: "results checker_two = []" "processed checker_two = 0"
    by (simp_all add: checker_two_def)
  from one_line_and_one_increment_per_unit [OF e [unfolded checker_two_def],
      of "''@alice''" "DoError ''timeout''" checker_two] e r l c
  show ?thesis by auto
qed

section \<open>Failed requests\<close>

text \<open>
  Claim C6. In every state of every execution, a goroutine at its start whose request
  fails goes through all of its steps: one request is passed to the client and none after
  it (its fetch step is not possible again), the failure is recorded as the line of a
  request error and counted once, the goroutine gives back its slot and signals the wait
  group, and the dispatcher is left where it was. There are never more requests than
  goroutines past their fetch, and the client's time-out is ten seconds.
\<close>

theorem request_failure_recorded_without_retry:
  assumes "exec L es (NewUsernameChecker url_Parse us n ps out) = Some s"
    and "worker s i = Some (u, Started)"
  shows "(\<exists>s'. exec L [Fetch i (DoError err), Record i, Count i, Release i, Done i] s = Some s' \<and>
           worker s' i = Some (u, Exited) \<and>
           requests s' = requests s @ [request_url (normalize L u)] \<and>
           results s' = results s @ [render (normalize L u) (RequestError err)] \<and>
           processed s' = processed s + 1 \<and>
           pc s' = pc s \<and> todo s' = todo s \<and> stopChan_closed s' = stopChan_closed s \<and>
           sem s' + 1 = sem s \<and> wg s' + 1 = wg s \<and>
           (\<forall>r. step L (Fetch i r) s' = None)) \<and>
         length (requests s) \<le> cnt fetched (workers s) \<and>
         Timeout (client s) = 10"
proof -
  from reachable_invariant [OF assms(1)] have inv: "invariant s"
    by simp
  from inv cnt_pos [OF assms(2), of holds_slot] cnt_pos [OF assms(2), of alive]
  have pos: "0 < sem s" "0 < wg s"
    by (simp_all add: invariant_def)
  from worker_completes [OF assms(2) pos, where r = "DoError err"] obtain s'
    where run: "exec L [Fetch i (DoError err), Record i, Count i, Release i, Done i] s = Some s'"
      and w: "worker s' i = Some (u, Exited)"
      and rq: "requests s' = requests (checkUsername L u (DoError err) s)"
      and rs: "results s' = results s @ [result_line L (normalize L u) (DoError err)]"
      and fr: "processed s' = processed s + 1" "pc s' = pc s" "todo s' = todo s"
        "stopChan_closed s' = stopChan_closed s" "sem s' + 1 = sem s" "wg s' + 1 = wg s"
    by blast
  from rq have rq': "requests s' = requests s @ [request_url (normalize L u)]"
    by (simp add: checkUsername_record)
  from rs have rs': "results s' = results s @ [render (normalize L u) (RequestError err)]"
    by simp
  have nofetch: "step L (Fetch i r) s' = None" for r
    using w by simp
  from exec_frame [OF assms(1)] have "Timeout (client s) = 10"
    by (simp add: NewUsernameChecker_def Let_def split: sum.splits)
  moreover from inv have "length (requests s) \<le> cnt fetched (workers s)"
    by (simp add: invariant_def)
  ultimately show ?thesis
    using run w rq' rs' fr nofetch by blast
qed

theorem request_failure_recorded_without_retry_witness:
  "\<exists>s s'. exec ascii_strings run_one checker_one = Some s \<and> worker s 0 = Some (''@alice'', Started) \<and>
       exec ascii_strings [Fetch 0 (DoError ''timeout''), Record 0, Count 0, Release 0, Done 0] s = Some s' \<and>
       worker s' 0 = Some (''@alice'', Exited) \<and>
       requests s = [] \<and> requests s' = [''https://fragment.com/username/alice''] \<and>
       results s = [] \<and> results s' = [''@alice | Error: timeout\<newline>''] \<and>
       processed s = 0 \<and> processed s' = 1 \<and> pc s' = Loop \<and>
       sem s = 1 \<and> sem s' = 0 \<and> wg s = 1 \<and> wg s' = 0 \<and>
       step ascii_strings (Fetch 0 (DoError ''timeout'')) s' = None \<and> Timeout (client s) = 10"
proof -
  from run_one_result obtain s where e: "exec ascii_strings run_one checker_one = Some s"
    and w: "worker s 0 = Some (''@alice'', Started)"
    and f: "processed s = 0" "results s = []" "requests s = []" "sem s = 1" "wg s = 1" "pc s = Loop"
    by blast
  have l: "request_url (normalize ascii_strings ''@alice'') = ''https://fragment.com/username/alice''"
    "render (normalize ascii_strings ''@alice'') (RequestError ''timeout'') = ''@alice | Error: timeout\<newline>''"
    by (simp_all add: string_defs)
  from request_failure_recorded_without_retry [OF e [unfolded checker_one_def] w, of "''timeout''"]
    e w f l
  show ?thesis by auto
qed


section \<open>The processed counter\<close>

text \<open>
  Claim C7. In every state of every execution the processed counter is at most the number
  of input handles, and every step from there leaves it unchanged or adds one to it, and
  keeps it at most the number of input handles.
\<close>

theorem processed_monotone_and_bounded:
  assumes "exec L es (NewUsernameChecker url_Parse us n ps out) = Some s"
  shows "processed s \<le> length us \<and>
         (\<forall>e s'. step L e s = Some s' \<longrightarrow>
            (processed s' = processed s \<or> processed s' = processed s + 1) \<and>
            processed s' \<le> length us)"
proof -
  from reachable_invariant [OF assms] have inv: "invariant s" and us: "usernames s = us"
    by simp_all
  have "processed s' \<le> length us \<and> (processed s' = processed s \<or> processed s' = processed s + 1)"
    if "step L e s = Some s'" for e s'
    using processed_le_total [OF invariant_step [OF inv that]] step_frame [OF that] us
    by simp
  with processed_le_total [OF inv] us show ?thesis by blast
qed


theorem processed_monotone_and_bounded_witness:
  "\<exists>s s'. exec ascii_strings run_logged checker_one = Some s \<and> step ascii_strings (Count 0) s = Some s' \<and>
       processed s = 0 \<and> processed s' = processed s + 1 \<and>
       processed s \<le> length [''@alice''] \<and> processed s' \<le> length [''@alice'']"
proof -
  have "\<exists>s. exec ascii_strings run_logged checker_one = Some s \<and> processed s = 0 \<and>
          (\<exists>s'. step ascii_strings (Count 0) s = Some s' \<and> processed s' = 1)"
    by (simp add: run_logged_def run_one_def checker_one_def run_defs)
  then obtain s s' where e: "exec ascii_strings run_logged checker_one = Some s"
    and c: "processed s = 0" "step ascii_strings (Count 0) s = Some s'" "processed s' = 1"
    by blast
  from processed_monotone_and_bounded [OF e [unfolded checker_one_def]] c(2)
  have "processed s \<le> length [''@alice'']" "processed s' \<le> length [''@alice'']"
    by blast+
  with e c show ?thesis by auto
qed

section \<open>Progress snapshots\<close>

text \<open>
  Claim C8. \<^verbatim>\<open>GetProgress\<close> returns the counter, the number of handles and their ratio
  and leaves the state as it is; any number of calls in a row return the same value each
  time and leave the state unchanged.
\<close>

theorem GetProgress_repeatable:
  "GetProgress rnd s = ((processed s, length (usernames s),
                     progress_percent rnd (processed s) (length (usernames s))), s) \<and>
   poll rnd k s = (replicate k (fst (GetProgress rnd s)), s)"
proof -
  have g: "snd (GetProgress rnd s) = s"
    by (simp add: GetProgress_def Let_def)
  have "poll rnd k s = (replicate k (fst (GetProgress rnd s)), s)"
  proof (induction k)
    case 0
    then show ?case by simp
  next
    case (Suc k)
    have "poll rnd (Suc k) s = (fst (GetProgress rnd s) # fst (poll rnd k s), snd (poll rnd k s))"
      by (simp add: case_prod_unfold Let_def g)
    with Suc show ?case by simp
  qed
  then show ?thesis
    by (simp add: GetProgress_def Let_def)
qed

text \<open>
  Claim C10. For a checker built with no handle, \<^verbatim>\<open>GetProgress\<close> returns the counters
  \<open>(0, 0)\<close> in every state of every execution, and its ratio is the quotient of zero by
  zero, a NaN and no percentage: the division has no guard for the empty list.
\<close>

theorem GetProgress_of_no_handles:
  assumes "exec L es (NewUsernameChecker url_Parse [] n ps out) = Some s"
  shows "GetProgress rnd s = ((0, 0, NaN), s)"
proof -
  from reachable_invariant [OF assms] have "invariant s" and "usernames s = []"
    by simp_all
  with processed_le_total [of s] show ?thesis
    by (simp add: GetProgress_def Let_def progress_percent_def)
qed

theorem GetProgress_of_no_handles_witness:
  "\<exists>s. exec ascii_strings run_none checker_none = Some s \<and> pc s = Returned \<and>
       GetProgress id s = ((0, 0, NaN), s) \<and>
       GetProgress id checker_none = ((0, 0, NaN), checker_none)"
proof -
  have "\<exists>s. exec ascii_strings run_none checker_none = Some s \<and> pc s = Returned"
    by (simp add: run_none_def checker_none_def run_defs)
  then obtain s where e: "exec ascii_strings run_none checker_none = Some s" and r: "pc s = Returned"
    by blast
  have i: "exec ascii_strings [] checker_none = Some checker_none"
    by simp
  from GetProgress_of_no_handles [OF e [unfolded checker_none_def]]
    GetProgress_of_no_handles [OF i [unfolded checker_none_def]] e r
  show ?thesis by (auto simp: checker_none_def)
qed


section \<open>Construction\<close>

text \<open>
  Claim C9. When the first proxy of the list does not parse, \<^verbatim>\<open>NewUsernameChecker\<close>
  returns the checker it returns for no proxy at all (but for the stored list), with the
  nil transport, and no error; when it parses, the transport uses it; and in both cases
  the client is the one built from the first element alone.
\<close>

theorem unparsable_proxy_ignored:
  "(url_Parse p = Inl err \<longrightarrow>
      NewUsernameChecker url_Parse us n (p # ps) out =
        (NewUsernameChecker url_Parse us n [] out)\<lparr>proxies := p # ps\<rparr> \<and>
      Transport (client (NewUsernameChecker url_Parse us n (p # ps) out)) = None) \<and>
   (url_Parse p = Inr proxyURL \<longrightarrow>
      Transport (client (NewUsernameChecker url_Parse us n (p # ps) out)) =
        Some \<lparr>Proxy = proxyURL, Dialer_Timeout = 10, Dialer_KeepAlive = 10\<rparr>) \<and>
   client (NewUsernameChecker url_Parse us n (p # ps) out) =
     client (NewUsernameChecker url_Parse us n [p] out)"
  by (simp add: NewUsernameChecker_def Let_def)

theorem unparsable_proxy_ignored_witness:
  "url_Parse_ctl ''http://127.0.0.1:8080\<newline>'' = Inl ''net/url: invalid control character in URL'' \<and>
   NewUsernameChecker url_Parse_ctl [''a''] 1 [''http://127.0.0.1:8080\<newline>'', ''http://10.0.0.2:3128''] ''out.txt'' =
     (NewUsernameChecker url_Parse_ctl [''a''] 1 [] ''out.txt'')
       \<lparr>proxies := [''http://127.0.0.1:8080\<newline>'', ''http://10.0.0.2:3128'']\<rparr> \<and>
   Transport (client (NewUsernameChecker url_Parse_ctl [''a''] 1
      [''http://127.0.0.1:8080\<newline>'', ''http://10.0.0.2:3128''] ''out.txt'')) = None \<and>
   url_Parse_ctl ''http://10.0.0.1:3128'' = Inr ''http://10.0.0.1:3128'' \<and>
   Transport (client (NewUsernameChecker url_Parse_ctl [''a''] 1
      [''http://10.0.0.1:3128'', ''http://10.0.0.2:3128''] ''out.txt'')) =
     Some \<lparr>Proxy = ''http://10.0.0.1:3128'', Dialer_Timeout = 10, Dialer_KeepAlive = 10\<rparr> \<and>
   client (NewUsernameChecker url_Parse_ctl [''a''] 1
      [''http://10.0.0.1:3128'', ''http://10.0.0.2:3128''] ''out.txt'') =
     client (NewUsernameChecker url_Parse_ctl [''a''] 1 [''http://10.0.0.1:3128''] ''out.txt'')"
proof -
  have bad: "url_Parse_ctl ''http://127.0.0.1:8080\<newline>'' = Inl ''net/url: invalid control character in URL''"
    by (simp add: url_Parse_ctl_def isCTL_def)
  have good: "url_Parse_ctl ''http://10.0.0.1:3128'' = Inr ''http://10.0.0.1:3128''"
    by (simp add: url_Parse_ctl_def isCTL_def)
  from unparsable_proxy_ignored [where url_Parse = url_Parse_ctl
      and p = "''http://127.0.0.1:8080\<newline>''"
      and err = "''net/url: invalid control character in URL''" and us = "[''a'']" and n = 1
      and ps = "[''http://10.0.0.2:3128'']" and out = "''out.txt''"]
    unparsable_proxy_ignored [where url_Parse = url_Parse_ctl
      and p = "''http://10.0.0.1:3128''" and proxyURL = "''http://10.0.0.1:3128''"
      and us = "[''a'']" and n = 1 and ps = "[''http://10.0.0.2:3128'']" and out = "''out.txt''"]
    bad good
  show ?thesis by blast
qed


end
